theory Spec2Isabelle
  imports Complex_Main
begin

section \<open>Python strings and the built-in character predicates\<close>

text \<open>
  A Python \<open>str\<close> is a sequence of Unicode code points; \<open>len\<close> counts code points
  and \<open>str.upper\<close> may lengthen a string. A string is therefore a list of natural
  numbers. String literals of the source are ASCII and written with \<open>str\<close>.
\<close>

type_synonym codepoint = nat
type_synonym pystr = "codepoint list"

definition ord_of :: "char \<Rightarrow> codepoint" where
  "ord_of c = of_char c"

definition str :: "string \<Rightarrow> pystr" where
  "str s = map ord_of s"

definition ascii_upper_letter :: "codepoint \<Rightarrow> bool" where
  "ascii_upper_letter c = (65 \<le> c \<and> c \<le> 90)"

definition ascii_lower_letter :: "codepoint \<Rightarrow> bool" where
  "ascii_lower_letter c = (97 \<le> c \<and> c \<le> 122)"

definition ascii_digit :: "codepoint \<Rightarrow> bool" where
  "ascii_digit c = (48 \<le> c \<and> c \<le> 57)"

text \<open>
  The methods \<open>str.isalpha\<close>, \<open>str.isdecimal\<close>, \<open>str.isdigit\<close>,
  \<open>str.isnumeric\<close> and \<open>str.upper\<close> are Python built-ins driven by the Unicode
  character database, which is not part of the repository. On ASCII (code points below
  128) their behaviour is written out; beyond ASCII it is read from a parameter
  \<open>U\<close>, so that every theorem below holds whatever the database says there.
\<close>

record unicode_db =
  db_isalpha :: "codepoint \<Rightarrow> bool"
  db_isdecimal :: "codepoint \<Rightarrow> bool"
  db_isdigit :: "codepoint \<Rightarrow> bool"
  db_isnumeric :: "codepoint \<Rightarrow> bool"
  db_upper :: "codepoint \<Rightarrow> pystr"

definition isalpha :: "unicode_db \<Rightarrow> codepoint \<Rightarrow> bool" where
  "isalpha U c =
     (if c < 128 then ascii_upper_letter c \<or> ascii_lower_letter c else db_isalpha U c)"

definition isdecimal :: "unicode_db \<Rightarrow> codepoint \<Rightarrow> bool" where
  "isdecimal U c = (if c < 128 then ascii_digit c else db_isdecimal U c)"

definition isdigit :: "unicode_db \<Rightarrow> codepoint \<Rightarrow> bool" where
  "isdigit U c = (if c < 128 then ascii_digit c else db_isdigit U c)"

definition isnumeric :: "unicode_db \<Rightarrow> codepoint \<Rightarrow> bool" where
  "isnumeric U c = (if c < 128 then ascii_digit c else db_isnumeric U c)"

text \<open>
  \<open>c.isalnum()\<close> is true when one of \<open>c.isalpha()\<close>, \<open>c.isdecimal()\<close>,
  \<open>c.isdigit()\<close>, \<open>c.isnumeric()\<close> is.
\<close>

definition isalnum :: "unicode_db \<Rightarrow> codepoint \<Rightarrow> bool" where
  "isalnum U c = (isalpha U c \<or> isdecimal U c \<or> isdigit U c \<or> isnumeric U c)"

text \<open>
  \<open>str.upper\<close> maps every character on its own (full case mapping: one character
  may become several) and concatenates.
\<close>

definition upper_char :: "unicode_db \<Rightarrow> codepoint \<Rightarrow> pystr" where
  "upper_char U c =
     (if c < 128 then [if ascii_lower_letter c then c - 32 else c] else db_upper U c)"

definition upper :: "unicode_db \<Rightarrow> pystr \<Rightarrow> pystr" where
  "upper U s = concat (map (upper_char U) s)"

section \<open>Dictionaries and errors\<close>

datatype error = KeyError | IndexError

text \<open>\<open>d[k]\<close> raises \<open>KeyError\<close> on a missing key; \<open>d.get(k, default)\<close> and
  \<open>k in d\<close> do not raise.\<close>

definition getitem :: "('k \<rightharpoonup> 'v) \<Rightarrow> 'k \<Rightarrow> error + 'v" where
  "getitem d k = (case d k of None \<Rightarrow> Inl KeyError | Some v \<Rightarrow> Inr v)"

definition dict_get :: "('k \<rightharpoonup> 'v) \<Rightarrow> 'k \<Rightarrow> 'v \<Rightarrow> 'v" where
  "dict_get d k dflt = (case d k of None \<Rightarrow> dflt | Some v \<Rightarrow> v)"

definition contains :: "('k \<rightharpoonup> 'v) \<Rightarrow> 'k \<Rightarrow> bool" where
  "contains d k = (case d k of None \<Rightarrow> False | Some v \<Rightarrow> True)"

text \<open>\<open>ANPRModel.corrections\<close> (anpr\_model.py, lines 22-31).\<close>

definition corrections :: "codepoint \<rightharpoonup> codepoint" where
  "corrections = map_of
     [(ord_of CHR ''O'', ord_of CHR ''0''),
      (ord_of CHR ''I'', ord_of CHR ''1''),
      (ord_of CHR ''Z'', ord_of CHR ''2''),
      (ord_of CHR ''S'', ord_of CHR ''5''),
      (ord_of CHR ''B'', ord_of CHR ''8''),
      (ord_of CHR ''D'', ord_of CHR ''0''),
      (ord_of CHR ''Q'', ord_of CHR ''0''),
      (ord_of CHR ''T'', ord_of CHR ''7'')]"

text \<open>The local \<open>digit_to_letter\<close> of \<open>_post_process_text\<close> (lines 166-168 and
  182-184, the same table twice).\<close>

definition digit_to_letter :: "codepoint \<rightharpoonup> codepoint" where
  "digit_to_letter = map_of
     [(ord_of CHR ''0'', ord_of CHR ''O''),
      (ord_of CHR ''1'', ord_of CHR ''I''),
      (ord_of CHR ''2'', ord_of CHR ''Z''),
      (ord_of CHR ''4'', ord_of CHR ''A''),
      (ord_of CHR ''5'', ord_of CHR ''S''),
      (ord_of CHR ''6'', ord_of CHR ''G''),
      (ord_of CHR ''7'', ord_of CHR ''T''),
      (ord_of CHR ''8'', ord_of CHR ''B'')]"

section \<open>The plate pattern and \<open>re.match\<close>\<close>

text \<open>
  The fragment of Python's regular expressions that \<open>plate_pattern\<close> uses: the
  anchors \<open>^\<close> and \<open>$\<close>, and a character class repeated between \<open>lo\<close> and \<open>hi\<close>
  times. On a \<open>str\<close> pattern \<open>\d\<close> matches every Unicode decimal digit
  (\<open>str.isdecimal\<close>), and \<open>[A-Z]\<close> the code points from \<open>A\<close> to \<open>Z\<close>. Without
  \<open>re.MULTILINE\<close>, \<open>^\<close> matches at position 0 and \<open>$\<close> at the end of the string
  or just before a line feed that ends it.
\<close>

datatype char_class = Range codepoint codepoint | DecimalDigit

datatype re_item = Bol | Eol | Rep char_class nat nat

fun in_class :: "unicode_db \<Rightarrow> char_class \<Rightarrow> codepoint \<Rightarrow> bool" where
  "in_class U (Range lo hi) c = (lo \<le> c \<and> c \<le> hi)"
| "in_class U DecimalDigit c = isdecimal U c"

fun match_from :: "unicode_db \<Rightarrow> re_item list \<Rightarrow> nat \<Rightarrow> pystr \<Rightarrow> bool" where
  "match_from U [] pos s = True"
| "match_from U (Bol # items) pos s = (pos = 0 \<and> match_from U items pos s)"
| "match_from U (Eol # items) pos s = ((s = [] \<or> s = [10]) \<and> match_from U items pos s)"
| "match_from U (Rep cls lo hi # items) pos s =
     list_ex (\<lambda>k. k \<le> length s \<and> list_all (in_class U cls) (take k s)
                  \<and> match_from U items (pos + k) (drop k s))
             (rev [lo..<Suc hi])"

definition re_match :: "unicode_db \<Rightarrow> re_item list \<Rightarrow> pystr \<Rightarrow> bool" where
  "re_match U pattern s = match_from U pattern 0 s"

text \<open>\<open>self.plate_pattern = r'^[A-Z]{2}\d{1,2}[A-Z]{1,2}\d{1,4}[A-Z]?$'\<close>
  (anpr\_model.py, line 36).\<close>

definition plate_pattern :: "re_item list" where
  "plate_pattern =
     [Bol,
      Rep (Range (ord_of CHR ''A'') (ord_of CHR ''Z'')) 2 2,
      Rep DecimalDigit 1 2,
      Rep (Range (ord_of CHR ''A'') (ord_of CHR ''Z'')) 1 2,
      Rep DecimalDigit 1 4,
      Rep (Range (ord_of CHR ''A'') (ord_of CHR ''Z'')) 0 1,
      Eol]"

section \<open>\<open>ANPRModel._post_process_text\<close>\<close>

text \<open>Lines 144-148: drop the characters that are not alphanumeric, then upper-case.\<close>

definition cleanup :: "unicode_db \<Rightarrow> pystr \<Rightarrow> pystr" where
  "cleanup U text = upper U (filter (isalnum U) text)"

text \<open>
  The body of the loop of lines 156-193: the character appended to
  \<open>processed_text\<close> for the character \<open>ch\<close> at index \<open>i\<close> of a cleaned text of
  length \<open>n\<close>. The subscript \<open>self.corrections[char]\<close> is the one operation of the
  function that can raise.
\<close>

definition correct_char :: "unicode_db \<Rightarrow> nat \<Rightarrow> nat \<Rightarrow> codepoint \<Rightarrow> error + codepoint" where
  "correct_char U n i ch =
     (if i < 2 then
        (if isdigit U ch then Inr (dict_get digit_to_letter ch ch) else Inr ch)
      else if i < 4 then
        (if isalpha U ch \<and> contains corrections ch then getitem corrections ch else Inr ch)
      else if i < 6 then
        (if isdigit U ch \<and> n > 8 then Inr (dict_get digit_to_letter ch ch) else Inr ch)
      else
        (if isalpha U ch \<and> contains corrections ch then getitem corrections ch else Inr ch))"

fun correct_loop :: "unicode_db \<Rightarrow> nat \<Rightarrow> nat \<Rightarrow> pystr \<Rightarrow> pystr \<Rightarrow> error + pystr" where
  "correct_loop U n i [] processed_text = Inr processed_text"
| "correct_loop U n i (ch # rest) processed_text =
     (case correct_char U n i ch of
        Inl e \<Rightarrow> Inl e
      | Inr c \<Rightarrow> correct_loop U n (Suc i) rest (processed_text @ [c]))"

definition post_process_text :: "unicode_db \<Rightarrow> pystr \<Rightarrow> error + pystr" where
  "post_process_text U text0 =
     (if text0 = [] then Inr []
      else
        let text = cleanup U text0 in
        if length text < 4 then Inr []
        else
          case correct_loop U (length text) 0 text [] of
            Inl e \<Rightarrow> Inl e
          | Inr processed_text \<Rightarrow>
              if re_match U plate_pattern processed_text then Inr processed_text
              else if length processed_text \<ge> 6
                      \<and> list_ex (isdigit U) processed_text
                      \<and> list_ex (isalpha U) processed_text
                   then Inr processed_text
              else Inr [])"

section \<open>\<open>ANPRModel.recognize_plate\<close>, from the combined OCR results on\<close>

text \<open>
  Lines 111-129. The OCR results are triples \<open>(bbox, text, conf)\<close>; the bounding box
  is unpacked and never read. A confidence is a float in \<open>[0, 1]\<close> that is only compared
  and copied, so it is a real number here (no NaN). \<open>list.sort\<close> is stable, and with
  \<open>reverse=True\<close> elements of equal key keep their original order: the list is
  reversed, sorted in ascending order, and reversed again.
\<close>

fun collect_candidates ::
  "unicode_db \<Rightarrow> ('b \<times> pystr \<times> real) list \<Rightarrow> (pystr \<times> real) list \<Rightarrow> error + (pystr \<times> real) list"
where
  "collect_candidates U [] candidates = Inr candidates"
| "collect_candidates U ((bbox, text, conf) # rest) candidates =
     (case post_process_text U text of
        Inl e \<Rightarrow> Inl e
      | Inr processed_text \<Rightarrow>
          if processed_text \<noteq> []
          then collect_candidates U rest (candidates @ [(processed_text, conf)])
          else collect_candidates U rest candidates)"

definition sort_reverse :: "(pystr \<times> real) list \<Rightarrow> (pystr \<times> real) list" where
  "sort_reverse candidates = rev (sort_key snd (rev candidates))"

definition recognize_plate :: "unicode_db \<Rightarrow> ('b \<times> pystr \<times> real) list \<Rightarrow> error + (pystr \<times> real)" where
  "recognize_plate U all_results =
     (if all_results = [] then Inr ([], 0)
      else
        case collect_candidates U all_results [] of
          Inl e \<Rightarrow> Inl e
        | Inr candidates \<Rightarrow>
            (case sort_reverse candidates of
               best # others \<Rightarrow> Inr best
             | [] \<Rightarrow> Inr ([], 0)))"

section \<open>\<open>ANPRBackend._post_process_plate_text\<close>\<close>

text \<open>
  The second variant of the plate-text correction (anpr\_processor.py, lines 167-184).
  \<open>re.sub(r'[^A-Z0-9]', '', s)\<close> deletes every character outside \<open>A-Z\<close> and
  \<open>0-9\<close>; \<open>s.replace(old, new)\<close> with one-character strings replaces every
  occurrence of the character.
\<close>

definition sub_not_AZ09 :: "pystr \<Rightarrow> pystr" where
  "sub_not_AZ09 s =
     filter (\<lambda>c. (ord_of CHR ''A'' \<le> c \<and> c \<le> ord_of CHR ''Z'')
                 \<or> (ord_of CHR ''0'' \<le> c \<and> c \<le> ord_of CHR ''9'')) s"

definition str_replace :: "codepoint \<Rightarrow> codepoint \<Rightarrow> pystr \<Rightarrow> pystr" where
  "str_replace old new s = map (\<lambda>c. if c = old then new else c) s"

text \<open>
  \<open>re.findall\<close> scans the string from the left. At each position the backtracking
  matcher tries the greedy quantifiers from the largest count down and the first
  success is the match; \<open>match_end\<close> is the number of characters it consumes. A match
  is recorded and the scan resumes after it (one character further after an empty match);
  without a match the scan moves one character on. The pattern has no group, so the
  list holds the matched substrings.
\<close>

fun first_some :: "(nat \<Rightarrow> nat option) \<Rightarrow> nat list \<Rightarrow> nat option" where
  "first_some f [] = None"
| "first_some f (k # ks) = (case f k of Some r \<Rightarrow> Some r | None \<Rightarrow> first_some f ks)"

fun match_end :: "unicode_db \<Rightarrow> re_item list \<Rightarrow> nat \<Rightarrow> pystr \<Rightarrow> nat option" where
  "match_end U [] pos s = Some 0"
| "match_end U (Bol # items) pos s = (if pos = 0 then match_end U items pos s else None)"
| "match_end U (Eol # items) pos s =
     (if s = [] \<or> s = [10] then match_end U items pos s else None)"
| "match_end U (Rep cls lo hi # items) pos s =
     first_some
       (\<lambda>k. if k \<le> length s \<and> list_all (in_class U cls) (take k s)
            then (case match_end U items (pos + k) (drop k s) of
                    Some m \<Rightarrow> Some (k + m) | None \<Rightarrow> None)
            else None)
       (rev [lo..<Suc hi])"

fun findall_from :: "unicode_db \<Rightarrow> re_item list \<Rightarrow> nat \<Rightarrow> nat \<Rightarrow> pystr \<Rightarrow> pystr list" where
  "findall_from U items pos skip [] =
     (case match_end U items pos [] of Some n \<Rightarrow> [[]] | None \<Rightarrow> [])"
| "findall_from U items pos skip (c # s) =
     (if 0 < skip then findall_from U items (Suc pos) (skip - 1) s
      else
        case match_end U items pos (c # s) of
          None \<Rightarrow> findall_from U items (Suc pos) 0 s
        | Some n \<Rightarrow> take n (c # s) # findall_from U items (Suc pos) (n - 1) s)"

definition findall :: "unicode_db \<Rightarrow> re_item list \<Rightarrow> pystr \<Rightarrow> pystr list" where
  "findall U pattern s = findall_from U pattern 0 0 s"

text \<open>The local \<open>plate_pattern = r'[A-Z]{2}\d{1,2}[A-Z]{1,2}\d{1,4}'\<close> of line 178.\<close>

definition backend_plate_pattern :: "re_item list" where
  "backend_plate_pattern =
     [Rep (Range (ord_of CHR ''A'') (ord_of CHR ''Z'')) 2 2,
      Rep DecimalDigit 1 2,
      Rep (Range (ord_of CHR ''A'') (ord_of CHR ''Z'')) 1 2,
      Rep DecimalDigit 1 4]"

definition post_process_plate_text :: "unicode_db \<Rightarrow> pystr \<Rightarrow> pystr" where
  "post_process_plate_text U text0 =
     (let text = sub_not_AZ09 (upper U text0) in
      if length text \<ge> 6 then
        let text = str_replace (ord_of CHR ''8'') (ord_of CHR ''B'')
                     (str_replace (ord_of CHR ''1'') (ord_of CHR ''I'')
                        (str_replace (ord_of CHR ''0'') (ord_of CHR ''O'') text)) in
        case findall U backend_plate_pattern text of
          m # ms \<Rightarrow> m
        | [] \<Rightarrow> text
      else text)"

section \<open>\<open>ModelHandler._is_valid_plate\<close>\<close>

text \<open>The validity test of the third recognizer (model\_handler.py, lines 66-77).\<close>

definition is_valid_plate :: "unicode_db \<Rightarrow> pystr \<Rightarrow> bool" where
  "is_valid_plate U text =
     (if length text < 5 then False
      else
        let has_letters = list_ex (isalpha U) text;
            has_numbers = list_ex (isdigit U) text
        in has_letters \<and> has_numbers)"

section \<open>Notions used to state the properties\<close>

text \<open>The values under \<open>Inr\<close>: the character the loop appends, the corrected string,
  and the text a candidate is turned into.\<close>

definition corrected_char :: "unicode_db \<Rightarrow> nat \<Rightarrow> nat \<Rightarrow> codepoint \<Rightarrow> codepoint" where
  "corrected_char U n i ch = (case correct_char U n i ch of Inr c \<Rightarrow> c | Inl e \<Rightarrow> ch)"

definition corrected :: "unicode_db \<Rightarrow> pystr \<Rightarrow> pystr" where
  "corrected U t = map2 (corrected_char U (length t)) [0..<length t] t"

definition processed :: "unicode_db \<Rightarrow> pystr \<Rightarrow> pystr" where
  "processed U text = (case post_process_text U text of Inr p \<Rightarrow> p | Inl e \<Rightarrow> [])"

text \<open>Step 1 in the words of the specification: keep the ASCII letters and digits,
  upper-case them.\<close>

definition ascii_letter_or_digit :: "codepoint \<Rightarrow> bool" where
  "ascii_letter_or_digit c = (ascii_upper_letter c \<or> ascii_lower_letter c \<or> ascii_digit c)"

definition spec_cleanup :: "pystr \<Rightarrow> pystr" where
  "spec_cleanup text =
     map (\<lambda>c. if ascii_lower_letter c then c - 32 else c) (filter ascii_letter_or_digit text)"

text \<open>The zones of step 2, by index.\<close>

definition letter_zone :: "nat \<Rightarrow> bool" where
  "letter_zone i = (i < 2 \<or> (4 \<le> i \<and> i < 6))"

definition digit_zone :: "nat \<Rightarrow> bool" where
  "digit_zone i = ((2 \<le> i \<and> i < 4) \<or> 6 \<le> i)"

text \<open>The plate grammar in the words of the specification: 2 letters, 1-2 digits,
  1-2 letters, 1-4 digits, an optional trailing letter, and nothing else. A letter is
  one of \<open>A\<close> to \<open>Z\<close> (the text is upper-cased before), a digit a decimal digit.\<close>

definition plate_grammar :: "unicode_db \<Rightarrow> pystr \<Rightarrow> bool" where
  "plate_grammar U s =
     (\<exists>region serial series number trailing.
        s = region @ serial @ series @ number @ trailing
        \<and> length region = 2 \<and> list_all ascii_upper_letter region
        \<and> 1 \<le> length serial \<and> length serial \<le> 2 \<and> list_all (isdecimal U) serial
        \<and> 1 \<le> length series \<and> length series \<le> 2 \<and> list_all ascii_upper_letter series
        \<and> 1 \<le> length number \<and> length number \<le> 4 \<and> list_all (isdecimal U) number
        \<and> length trailing \<le> 1 \<and> list_all ascii_upper_letter trailing)"

text \<open>The fallback test of step 4.\<close>

definition fallback_ok :: "unicode_db \<Rightarrow> pystr \<Rightarrow> bool" where
  "fallback_ok U p = (6 \<le> length p \<and> list_ex (isalpha U) p \<and> list_ex (isdigit U) p)"

text \<open>The accepted candidates, in input order: the processed text of every OCR result
  whose processed text is not empty, with the confidence of that result.\<close>

definition accepted :: "unicode_db \<Rightarrow> ('b \<times> pystr \<times> real) list \<Rightarrow> (pystr \<times> real) list" where
  "accepted U all_results =
     map (\<lambda>(bbox, text, conf). (processed U text, conf))
         (filter (\<lambda>(bbox, text, conf). processed U text \<noteq> []) all_results)"

text \<open>A character is stable when it is alphanumeric and its own upper case. A text is
  case-stable when upper-casing any of its non-ASCII alphanumeric characters gives stable
  characters only; every ASCII text is case-stable.\<close>

definition stable_char :: "unicode_db \<Rightarrow> codepoint \<Rightarrow> bool" where
  "stable_char U d = (isalnum U d \<and> upper_char U d = [d])"

definition case_stable :: "unicode_db \<Rightarrow> pystr \<Rightarrow> bool" where
  "case_stable U raw =
     list_all (\<lambda>c. c < 128 \<or> \<not> isalnum U c \<or> list_all (stable_char U) (db_upper U c)) raw"

text \<open>What \<open>ANPRBackend\<close> looks for: 2 letters, 1-2 digits, 1-2 letters, 1-4 digits,
  with no trailing letter; and its three replacements applied to a whole string.\<close>

definition plate_core :: "unicode_db \<Rightarrow> pystr \<Rightarrow> bool" where
  "plate_core U s =
     (\<exists>region serial series number.
        s = region @ serial @ series @ number
        \<and> length region = 2 \<and> list_all ascii_upper_letter region
        \<and> 1 \<le> length serial \<and> length serial \<le> 2 \<and> list_all (isdecimal U) serial
        \<and> 1 \<le> length series \<and> length series \<le> 2 \<and> list_all ascii_upper_letter series
        \<and> 1 \<le> length number \<and> length number \<le> 4 \<and> list_all (isdecimal U) number)"

definition replaced_everywhere :: "pystr \<Rightarrow> pystr" where
  "replaced_everywhere s =
     map (\<lambda>c. if c = ord_of CHR ''0'' then ord_of CHR ''O''
              else if c = ord_of CHR ''1'' then ord_of CHR ''I''
              else if c = ord_of CHR ''8'' then ord_of CHR ''B''
              else c) s"

section \<open>An excerpt of the Unicode database for the examples\<close>

text \<open>
  What CPython's database (Unicode 14) says about the four non-ASCII code points the
  examples below use: U+00C9 and U+00E9 (E with acute, capital and small) are letters,
  the capital is its own upper case and the upper case of the small one; U+01F0 (small j
  with caron) is a letter whose upper case is the two code points U+004A U+030C; U+030C
  (combining caron) is a mark, neither a letter nor a digit. No example evaluates the
  excerpt at another non-ASCII code point.
\<close>

definition excerpt_db :: unicode_db where
  "excerpt_db =
     \<lparr> db_isalpha = (\<lambda>c. c = 201 \<or> c = 233 \<or> c = 496),
       db_isdecimal = (\<lambda>c. False),
       db_isdigit = (\<lambda>c. False),
       db_isnumeric = (\<lambda>c. False),
       db_upper = (\<lambda>c. if c = 233 then [201] else if c = 496 then [74, 780] else [c]) \<rparr>"

section \<open>The tables, and the function as a value\<close>

lemma ord_of_vals:
  "ord_of CHR ''O'' = 79" "ord_of CHR ''I'' = 73" "ord_of CHR ''Z'' = 90" "ord_of CHR ''S'' = 83"
  "ord_of CHR ''B'' = 66" "ord_of CHR ''D'' = 68" "ord_of CHR ''Q'' = 81" "ord_of CHR ''T'' = 84"
  "ord_of CHR ''A'' = 65" "ord_of CHR ''G'' = 71"
  "ord_of CHR ''0'' = 48" "ord_of CHR ''1'' = 49" "ord_of CHR ''2'' = 50" "ord_of CHR ''4'' = 52"
  "ord_of CHR ''5'' = 53" "ord_of CHR ''6'' = 54" "ord_of CHR ''7'' = 55" "ord_of CHR ''8'' = 56"
  by (simp_all add: ord_of_def)

lemma corrections_Some:
  "corrections c = Some d \<longleftrightarrow>
     (c = 79 \<and> d = 48) \<or> (c = 73 \<and> d = 49) \<or> (c = 90 \<and> d = 50) \<or> (c = 83 \<and> d = 53)
     \<or> (c = 66 \<and> d = 56) \<or> (c = 68 \<and> d = 48) \<or> (c = 81 \<and> d = 48) \<or> (c = 84 \<and> d = 55)"
  by (auto simp: corrections_def ord_of_vals split: if_splits)

lemma digit_to_letter_Some:
  "digit_to_letter c = Some d \<longleftrightarrow>
     (c = 48 \<and> d = 79) \<or> (c = 49 \<and> d = 73) \<or> (c = 50 \<and> d = 90) \<or> (c = 52 \<and> d = 65)
     \<or> (c = 53 \<and> d = 83) \<or> (c = 54 \<and> d = 71) \<or> (c = 55 \<and> d = 84) \<or> (c = 56 \<and> d = 66)"
  by (auto simp: digit_to_letter_def ord_of_vals split: if_splits)

lemma getitem_contains: "contains d k \<Longrightarrow> \<exists>v. d k = Some v \<and> getitem d k = Inr v"
  by (auto simp: contains_def getitem_def split: option.splits)

lemma correct_char_Inr: "correct_char U n i ch = Inr (corrected_char U n i ch)"
  using getitem_contains [of corrections ch]
  by (auto simp: corrected_char_def correct_char_def)

lemma correct_loop_eq:
  "correct_loop U n i s acc = Inr (acc @ map2 (corrected_char U n) [i..<i + length s] s)"
proof (induction s arbitrary: i acc)
  case Nil
  then show ?case by simp
next
  case (Cons ch rest)
  have "[i..<i + length (ch # rest)] = i # [Suc i..<Suc i + length rest]"
    by (simp add: upt_rec)
  then show ?case
    by (simp add: correct_char_Inr Cons.IH)
qed

lemma correct_loop_corrected: "correct_loop U (length t) 0 t [] = Inr (corrected U t)"
  by (simp add: correct_loop_eq corrected_def)

lemma length_corrected: "length (corrected U t) = length t"
  by (simp add: corrected_def)

lemma nth_corrected: "i < length t \<Longrightarrow> corrected U t ! i = corrected_char U (length t) i (t ! i)"
  by (simp add: corrected_def)

lemma post_process_text_eq:
  "post_process_text U text =
     Inr (if text = [] \<or> length (cleanup U text) < 4 then []
          else if re_match U plate_pattern (corrected U (cleanup U text))
                  \<or> fallback_ok U (corrected U (cleanup U text))
          then corrected U (cleanup U text) else [])"
  by (auto simp: post_process_text_def Let_def correct_loop_corrected fallback_ok_def)

lemma post_process_text_processed: "post_process_text U text = Inr (processed U text)"
  by (simp add: processed_def post_process_text_eq)

lemma collect_candidates_eq:
  "collect_candidates U rs acc = Inr (acc @ accepted U rs)"
proof (induction rs arbitrary: acc)
  case Nil
  then show ?case by (simp add: accepted_def)
next
  case (Cons r rs)
  obtain bbox raw conf where r: "r = (bbox, raw, conf)" by (cases r)
  show ?case
    by (simp add: r post_process_text_processed Cons.IH accepted_def)
qed

lemma recognize_plate_eq:
  "recognize_plate U rs =
     Inr (case sort_reverse (accepted U rs) of best # others \<Rightarrow> best | [] \<Rightarrow> ([], 0))"
  by (cases rs) (auto simp: recognize_plate_def collect_candidates_eq accepted_def sort_reverse_def split: list.splits)

section \<open>The result of the recognition\<close>

lemma set_sort_reverse: "set (sort_reverse cs) = set cs"
  by (simp add: sort_reverse_def)

lemma sort_reverse_Nil: "sort_reverse cs = [] \<longleftrightarrow> cs = []"
  by (metis set_sort_reverse set_empty)

lemma accepted_nonempty: "(p, c) \<in> set (accepted U rs) \<Longrightarrow> p \<noteq> []"
  by (auto simp: accepted_def)

lemma accepted_source:
  "(p, c) \<in> set (accepted U rs) \<Longrightarrow> \<exists>bbox raw. (bbox, raw, c) \<in> set rs \<and> processed U raw = p"
  by (auto simp: accepted_def)

lemma recognize_plate_cases:
  "(accepted U rs = [] \<and> recognize_plate U rs = Inr ([], 0))
   \<or> (\<exists>best. best \<in> set (accepted U rs) \<and> recognize_plate U rs = Inr best)"
proof (cases "sort_reverse (accepted U rs)")
  case Nil
  then have "accepted U rs = []" by (simp add: sort_reverse_Nil)
  then show ?thesis by (simp add: recognize_plate_eq sort_reverse_def)
next
  case (Cons best others)
  then have "best \<in> set (accepted U rs)"
    by (metis list.set_intros(1) set_sort_reverse)
  moreover have "recognize_plate U rs = Inr best"
    by (simp add: recognize_plate_eq Cons)
  ultimately show ?thesis by blast
qed

section \<open>The correction, character by character\<close>

lemma digit_to_letter_range:
  "digit_to_letter c = Some d \<Longrightarrow> ascii_digit c \<and> ascii_upper_letter d"
  by (auto simp: digit_to_letter_Some ascii_digit_def ascii_upper_letter_def)

lemma corrections_range:
  "corrections c = Some d \<Longrightarrow> ascii_upper_letter c \<and> ascii_digit d"
  by (auto simp: corrections_Some ascii_digit_def ascii_upper_letter_def)

lemma ascii_digit_class:
  "ascii_digit c \<Longrightarrow> isdigit U c \<and> isdecimal U c \<and> isalnum U c \<and> \<not> isalpha U c \<and> upper_char U c = [c] \<and> c \<noteq> 10"
  by (auto simp: ascii_digit_def isdigit_def isdecimal_def isalnum_def isalpha_def
      ascii_upper_letter_def ascii_lower_letter_def upper_char_def)

lemma ascii_upper_class:
  "ascii_upper_letter c \<Longrightarrow> isalpha U c \<and> isalnum U c \<and> \<not> isdigit U c \<and> upper_char U c = [c] \<and> c \<noteq> 10"
  by (auto simp: ascii_digit_def isdigit_def isalnum_def isalpha_def
      ascii_upper_letter_def ascii_lower_letter_def upper_char_def)


lemma dict_get_cases: "dict_get d k v = w \<longleftrightarrow> (d k = None \<and> w = v) \<or> d k = Some w"
  by (auto simp: dict_get_def split: option.splits)

lemma corrected_char_cases:
  "corrected_char U n i ch =
     (if i < 2 \<or> (4 \<le> i \<and> i < 6 \<and> 8 < n)
      then (if isdigit U ch then dict_get digit_to_letter ch ch else ch)
      else if 4 \<le> i \<and> i < 6 then ch
      else (if isalpha U ch \<and> contains corrections ch then the (corrections ch) else ch))"
  using getitem_contains [of corrections ch]
  by (auto simp: corrected_char_def correct_char_def)

lemma corrected_char_changed:
  "corrected_char U n i ch \<noteq> ch \<Longrightarrow>
     (letter_zone i \<and> (i < 2 \<or> 8 < n) \<and> isdigit U ch \<and> digit_to_letter ch = Some (corrected_char U n i ch))
     \<or> (digit_zone i \<and> isalpha U ch \<and> corrections ch = Some (corrected_char U n i ch))"
  by (auto simp: corrected_char_cases letter_zone_def digit_zone_def dict_get_def contains_def
      split: if_splits option.splits)




lemma correct_loop_result:
  "correct_loop U (length t) 0 t [] = Inr p \<longleftrightarrow> p = corrected U t"
  by (auto simp: correct_loop_corrected)

section \<open>The plate pattern and the plate grammar\<close>

lemma match_from_Rep:
  "match_from U (Rep cls lo hi # items) pos s \<longleftrightarrow>
     (\<exists>a r. s = a @ r \<and> lo \<le> length a \<and> length a \<le> hi \<and> list_all (in_class U cls) a
            \<and> match_from U items (pos + length a) r)"
  (is "?L \<longleftrightarrow> ?R")
proof
  assume ?L
  then obtain k where k: "lo \<le> k" "k \<le> hi" "k \<le> length s"
      "list_all (in_class U cls) (take k s)" "match_from U items (pos + k) (drop k s)"
    by (auto simp: list_ex_iff)
  have "s = take k s @ drop k s" by simp
  moreover have "length (take k s) = k" using k(3) by simp
  ultimately show ?R using k by metis
next
  assume ?R
  then obtain a r where ar: "s = a @ r" "lo \<le> length a" "length a \<le> hi"
      "list_all (in_class U cls) a" "match_from U items (pos + length a) r"
    by blast
  then have "length a \<in> set (rev [lo..<Suc hi])" by (auto simp: less_Suc_eq_le)
  moreover have "length a \<le> length s \<and> list_all (in_class U cls) (take (length a) s)
      \<and> match_from U items (pos + length a) (drop (length a) s)"
    using ar by simp
  ultimately show ?L
    unfolding match_from.simps list_ex_iff by blast
qed

lemma match_from_RepI:
  "lo \<le> length a \<Longrightarrow> length a \<le> hi \<Longrightarrow> list_all (in_class U cls) a
     \<Longrightarrow> match_from U items (pos + length a) r
     \<Longrightarrow> match_from U (Rep cls lo hi # items) pos (a @ r)"
  unfolding match_from_Rep by blast

lemma in_class_AZ: "in_class U (Range (ord_of CHR ''A'') (ord_of CHR ''Z'')) = ascii_upper_letter"
  by (auto simp: ord_of_vals ascii_upper_letter_def fun_eq_iff)

lemma in_class_digit: "in_class U DecimalDigit = isdecimal U"
  by (auto simp: fun_eq_iff)

lemma re_match_plate_pattern:
  "re_match U plate_pattern s \<longleftrightarrow>
     plate_grammar U s \<or> (\<exists>s'. s = s' @ [10] \<and> plate_grammar U s')"
  (is "?L \<longleftrightarrow> ?R")
proof
  assume ?L
  then obtain a1 r1 a2 r2 a3 r3 a4 r4 a5 r where raw_parts:
      "s = a1 @ r1" "2 \<le> length a1" "length a1 \<le> 2" "list_all ascii_upper_letter a1"
      "r1 = a2 @ r2" "1 \<le> length a2" "length a2 \<le> 2" "list_all (isdecimal U) a2"
      "r2 = a3 @ r3" "1 \<le> length a3" "length a3 \<le> 2" "list_all ascii_upper_letter a3"
      "r3 = a4 @ r4" "1 \<le> length a4" "length a4 \<le> 4" "list_all (isdecimal U) a4"
      "r4 = a5 @ r" "length a5 \<le> 1" "list_all ascii_upper_letter a5"
      "r = [] \<or> r = [10]"
    unfolding re_match_def plate_pattern_def match_from.simps(2) match_from_Rep
      in_class_AZ in_class_digit match_from.simps(3) match_from.simps(1)
    by (elim exE conjE) (rule that, assumption+)
  then have parts:
      "s = a1 @ a2 @ a3 @ a4 @ a5 @ r"
      "length a1 = 2" "list_all ascii_upper_letter a1"
      "1 \<le> length a2" "length a2 \<le> 2" "list_all (isdecimal U) a2"
      "1 \<le> length a3" "length a3 \<le> 2" "list_all ascii_upper_letter a3"
      "1 \<le> length a4" "length a4 \<le> 4" "list_all (isdecimal U) a4"
      "length a5 \<le> 1" "list_all ascii_upper_letter a5"
      "r = [] \<or> r = [10]"
    by simp_all
  then have g: "plate_grammar U (a1 @ a2 @ a3 @ a4 @ a5)"
    unfolding plate_grammar_def by blast
  from parts(15) show ?R
  proof
    assume "r = []"
    with parts(1) g show ?R by simp
  next
    assume "r = [10]"
    with parts(1) have "s = (a1 @ a2 @ a3 @ a4 @ a5) @ [10]" by simp
    with g show ?R by blast
  qed
next
  assume ?R
  then obtain s' r where s: "s = s' @ r" "r = [] \<or> r = [10]" "plate_grammar U s'"
    by auto
  from s(3) obtain a1 a2 a3 a4 a5 where parts:
      "s' = a1 @ a2 @ a3 @ a4 @ a5"
      "length a1 = 2" "list_all ascii_upper_letter a1"
      "1 \<le> length a2" "length a2 \<le> 2" "list_all (isdecimal U) a2"
      "1 \<le> length a3" "length a3 \<le> 2" "list_all ascii_upper_letter a3"
      "1 \<le> length a4" "length a4 \<le> 4" "list_all (isdecimal U) a4"
      "length a5 \<le> 1" "list_all ascii_upper_letter a5"
    unfolding plate_grammar_def by blast
  have m5: "match_from U [Rep (Range (ord_of CHR ''A'') (ord_of CHR ''Z'')) 0 1, Eol] n (a5 @ r)" for n
  proof (rule match_from_RepI)
    show "match_from U [Eol] (n + length a5) r"
      using s(2) by auto
  qed (use parts(13,14) in \<open>simp_all add: in_class_AZ\<close>)
  have m4: "match_from U [Rep DecimalDigit 1 4, Rep (Range (ord_of CHR ''A'') (ord_of CHR ''Z'')) 0 1, Eol]
      n (a4 @ a5 @ r)" for n
  proof (rule match_from_RepI)
    show "match_from U [Rep (Range (ord_of CHR ''A'') (ord_of CHR ''Z'')) 0 1, Eol] (n + length a4) (a5 @ r)"
      by (rule m5)
  qed (use parts(10,11,12) in \<open>simp_all add: in_class_digit\<close>)
  have m3: "match_from U [Rep (Range (ord_of CHR ''A'') (ord_of CHR ''Z'')) 1 2, Rep DecimalDigit 1 4,
      Rep (Range (ord_of CHR ''A'') (ord_of CHR ''Z'')) 0 1, Eol] n (a3 @ a4 @ a5 @ r)" for n
  proof (rule match_from_RepI)
    show "match_from U [Rep DecimalDigit 1 4, Rep (Range (ord_of CHR ''A'') (ord_of CHR ''Z'')) 0 1, Eol]
        (n + length a3) (a4 @ a5 @ r)"
      by (rule m4)
  qed (use parts(7,8,9) in \<open>simp_all add: in_class_AZ\<close>)
  have m2: "match_from U [Rep DecimalDigit 1 2, Rep (Range (ord_of CHR ''A'') (ord_of CHR ''Z'')) 1 2,
      Rep DecimalDigit 1 4, Rep (Range (ord_of CHR ''A'') (ord_of CHR ''Z'')) 0 1, Eol]
      n (a2 @ a3 @ a4 @ a5 @ r)" for n
  proof (rule match_from_RepI)
    show "match_from U [Rep (Range (ord_of CHR ''A'') (ord_of CHR ''Z'')) 1 2, Rep DecimalDigit 1 4,
        Rep (Range (ord_of CHR ''A'') (ord_of CHR ''Z'')) 0 1, Eol] (n + length a2) (a3 @ a4 @ a5 @ r)"
      by (rule m3)
  qed (use parts(4,5,6) in \<open>simp_all add: in_class_digit\<close>)
  have m1: "match_from U [Rep (Range (ord_of CHR ''A'') (ord_of CHR ''Z'')) 2 2, Rep DecimalDigit 1 2,
      Rep (Range (ord_of CHR ''A'') (ord_of CHR ''Z'')) 1 2, Rep DecimalDigit 1 4,
      Rep (Range (ord_of CHR ''A'') (ord_of CHR ''Z'')) 0 1, Eol] n (a1 @ a2 @ a3 @ a4 @ a5 @ r)" for n
  proof (rule match_from_RepI)
    show "match_from U [Rep DecimalDigit 1 2, Rep (Range (ord_of CHR ''A'') (ord_of CHR ''Z'')) 1 2,
        Rep DecimalDigit 1 4, Rep (Range (ord_of CHR ''A'') (ord_of CHR ''Z'')) 0 1, Eol]
        (n + length a1) (a2 @ a3 @ a4 @ a5 @ r)"
      by (rule m2)
  qed (use parts(2,3) in \<open>simp_all add: in_class_AZ\<close>)
  have "s = a1 @ a2 @ a3 @ a4 @ a5 @ r"
    using s(1) parts(1) by simp
  then show ?L
    unfolding re_match_def plate_pattern_def match_from.simps(2)
    using m1 [of 0] by blast
qed

lemma plate_grammar_no_newline: "plate_grammar U s \<Longrightarrow> 10 \<notin> set s"
  unfolding plate_grammar_def
  by (auto simp: list_all_iff ascii_upper_letter_def isdecimal_def ascii_digit_def split: if_splits)

lemma ascii_alnum_upper:
  assumes "c < 128" and "isalnum U c"
  shows "\<exists>d. upper_char U c = [d] \<and> (ascii_upper_letter d \<or> ascii_digit d)"
  using assms
  by (auto simp: isalnum_def isalpha_def isdecimal_def isdigit_def isnumeric_def upper_char_def
      ascii_upper_letter_def ascii_lower_letter_def ascii_digit_def)

lemma corrected_char_origin:
  "corrected_char U n i ch = ch \<or> ascii_upper_letter (corrected_char U n i ch)
     \<or> ascii_digit (corrected_char U n i ch)"
  using corrected_char_changed [of U n i ch]
  by (auto dest: digit_to_letter_range corrections_range)

lemma corrected_origin:
  assumes "d \<in> set (corrected U t)"
  shows "d \<in> set t \<or> ascii_upper_letter d \<or> ascii_digit d"
proof -
  from assms obtain i where i: "i < length t" "d = corrected U t ! i"
    by (metis in_set_conv_nth length_corrected)
  then have "d = corrected_char U (length t) i (t ! i)"
    by (simp add: nth_corrected)
  with corrected_char_origin [of U "length t" i "t ! i"] i(1) show ?thesis
    by (metis nth_mem)
qed

lemma cleanup_no_newline:
  assumes "\<forall>c \<in> set raw. 128 \<le> c \<longrightarrow> 10 \<notin> set (db_upper U c)"
  shows "10 \<notin> set (cleanup U raw)"
proof
  assume "10 \<in> set (cleanup U raw)"
  then obtain c where c: "c \<in> set raw" "isalnum U c" "10 \<in> set (upper_char U c)"
    by (auto simp: cleanup_def upper_def)
  show False
  proof (cases "c < 128")
    case True
    from ascii_alnum_upper [OF True c(2)] c(3) show False
      by (auto simp: ascii_upper_letter_def ascii_digit_def)
  next
    case False
    with assms c(1) have "10 \<notin> set (db_upper U c)" by simp
    with False c(3) show False by (simp add: upper_char_def)
  qed
qed

lemma corrected_no_newline:
  assumes "10 \<notin> set t"
  shows "10 \<notin> set (corrected U t)"
  using assms corrected_origin [of 10 U t]
  by (auto simp: ascii_upper_letter_def ascii_digit_def)

section \<open>The stable descending sort\<close>

lemma hd_filter_first:
  assumes "filter P xs \<noteq> []"
  shows "\<exists>i<length xs. hd (filter P xs) = xs ! i \<and> P (xs ! i) \<and> (\<forall>j<i. \<not> P (xs ! j))"
  using assms
proof (induction xs)
  case Nil
  then show ?case by simp
next
  case (Cons x xs)
  show ?case
  proof (cases "P x")
    case True
    then show ?thesis by (intro exI [of _ 0]) simp
  next
    case False
    with Cons obtain i where i: "i < length xs" "hd (filter P xs) = xs ! i" "P (xs ! i)"
        "\<forall>j<i. \<not> P (xs ! j)"
      by auto
    have "\<forall>j<Suc i. \<not> P ((x # xs) ! j)"
      using False i(4) by (auto simp: less_Suc_eq_0_disj)
    with False i show ?thesis
      by (intro exI [of _ "Suc i"]) simp
  qed
qed

lemma last_filter_keep:
  assumes "xs \<noteq> []" and "P (last xs)"
  shows "last (filter P xs) = last xs"
  using assms by (induction xs rule: rev_induct) simp_all

lemma last_sorted_max:
  assumes "sorted (map f ys)" and "y \<in> set ys"
  shows "f y \<le> f (last ys)"
proof -
  from assms(2) obtain i where i: "i < length ys" "ys ! i = y"
    by (auto simp: in_set_conv_nth)
  then have ne: "ys \<noteq> []" by auto
  have "map f ys ! i \<le> map f ys ! (length ys - 1)"
    using assms(1) i(1) by (intro sorted_nth_mono) auto
  then show ?thesis
    using i ne by (simp add: last_conv_nth)
qed

lemma sort_reverse_hd:
  assumes "cs \<noteq> []"
  shows "\<exists>i<length cs. hd (sort_reverse cs) = cs ! i
           \<and> (\<forall>j<length cs. snd (cs ! j) \<le> snd (cs ! i))
           \<and> (\<forall>j<i. snd (cs ! j) < snd (cs ! i))"
proof -
  define ys where "ys = sort_key snd (rev cs)"
  define k where "k = snd (last ys)"
  have ne: "ys \<noteq> []"
    using assms by (metis length_0_conv length_rev length_sort ys_def)
  have set: "set ys = set cs"
    by (simp add: ys_def)
  have srt: "sorted (map snd ys)"
    by (simp add: ys_def)
  have mx: "snd c \<le> k" if "c \<in> set cs" for c
    using last_sorted_max [OF srt, of c] that by (simp add: k_def set)
  have "filter (\<lambda>y. snd y = k) ys = rev (filter (\<lambda>y. snd y = k) cs)"
    by (simp add: ys_def sort_key_stable rev_filter)
  moreover have "last (filter (\<lambda>y. snd y = k) ys) = last ys"
    using ne by (intro last_filter_keep) (simp_all add: k_def)
  moreover have "filter (\<lambda>y. snd y = k) ys \<noteq> []"
    using ne by (auto simp: filter_empty_conv k_def intro: last_in_set)
  ultimately have fne: "filter (\<lambda>y. snd y = k) cs \<noteq> []"
    and lst: "last ys = hd (filter (\<lambda>y. snd y = k) cs)"
    by (auto simp: last_rev)
  from hd_filter_first [OF fne] obtain i where i: "i < length cs"
      "hd (filter (\<lambda>y. snd y = k) cs) = cs ! i" "snd (cs ! i) = k"
      "\<forall>j<i. snd (cs ! j) \<noteq> k"
    by auto
  have hd: "hd (sort_reverse cs) = cs ! i"
    by (simp add: sort_reverse_def ys_def [symmetric] hd_rev lst i(2))
  have le: "snd (cs ! j) \<le> snd (cs ! i)" if "j < length cs" for j
    using mx [of "cs ! j"] that i(3) by simp
  have lt: "snd (cs ! j) < snd (cs ! i)" if "j < i" for j
  proof -
    from that i(1) have "j < length cs" by simp
    from le [OF this] i(4) that i(3) show ?thesis by auto
  qed
  from i(1) hd le lt show ?thesis by blast
qed

section \<open>The cleanup on ASCII text\<close>

lemma ascii_isalnum: "c < 128 \<Longrightarrow> isalnum U c = ascii_letter_or_digit c"
  by (auto simp: isalnum_def isalpha_def isdecimal_def isdigit_def isnumeric_def
      ascii_letter_or_digit_def)

lemma cleanup_Cons:
  "cleanup U (c # raw) = (if isalnum U c then upper_char U c @ cleanup U raw else cleanup U raw)"
  by (simp add: cleanup_def upper_def)

lemma cleanup_ascii:
  "\<forall>c \<in> set raw. c < 128 \<Longrightarrow> cleanup U raw = spec_cleanup raw"
proof (induction raw)
  case Nil
  then show ?case by (simp add: cleanup_def upper_def spec_cleanup_def)
next
  case (Cons c raw)
  then have c: "c < 128" and IH: "cleanup U raw = spec_cleanup raw"
    by simp_all
  show ?case
    by (simp add: cleanup_Cons IH ascii_isalnum [OF c] spec_cleanup_def upper_char_def c)
qed

lemma recognize_plate_single:
  "recognize_plate U [(bbox, raw, conf)] =
     Inr (if processed U raw = [] then ([], 0) else (processed U raw, conf))"
  by (simp add: recognize_plate_eq accepted_def sort_reverse_def)

lemma processed_short: "length (cleanup U raw) < 4 \<Longrightarrow> processed U raw = []"
  by (simp add: processed_def post_process_text_eq)

section \<open>Stable characters and fixed points\<close>

lemma stable_ascii_upper: "ascii_upper_letter d \<Longrightarrow> stable_char U d"
  by (simp add: stable_char_def ascii_upper_class)

lemma stable_ascii_digit: "ascii_digit d \<Longrightarrow> stable_char U d"
  by (simp add: stable_char_def ascii_digit_class)

lemma cleanup_stable:
  assumes "case_stable U raw" and "d \<in> set (cleanup U raw)"
  shows "stable_char U d"
proof -
  from assms(2) obtain c where c: "c \<in> set raw" "isalnum U c" "d \<in> set (upper_char U c)"
    by (auto simp: cleanup_def upper_def)
  show ?thesis
  proof (cases "c < 128")
    case True
    from ascii_alnum_upper [OF True c(2)] c(3) show ?thesis
      by (auto intro: stable_ascii_upper stable_ascii_digit)
  next
    case False
    with assms(1) c(1,2) have "list_all (stable_char U) (db_upper U c)"
      by (auto simp: case_stable_def list_all_iff)
    with False c(3) show ?thesis
      by (simp add: upper_char_def list_all_iff)
  qed
qed

lemma corrected_stable:
  assumes "\<forall>d \<in> set t. stable_char U d" and "d \<in> set (corrected U t)"
  shows "stable_char U d"
  using corrected_origin [OF assms(2)] assms(1)
  by (auto intro: stable_ascii_upper stable_ascii_digit)

lemma cleanup_fixed:
  "\<forall>d \<in> set t. stable_char U d \<Longrightarrow> cleanup U t = t"
  by (induction t) (simp_all add: cleanup_Cons stable_char_def, simp add: cleanup_def upper_def)

lemma corrected_char_idem:
  "corrected_char U n i (corrected_char U n i ch) = corrected_char U n i ch"
proof (cases "corrected_char U n i ch = ch")
  case True
  then show ?thesis by simp
next
  case False
  from corrected_char_changed [OF False] show ?thesis
  proof
    assume "letter_zone i \<and> (i < 2 \<or> 8 < n) \<and> isdigit U ch
        \<and> digit_to_letter ch = Some (corrected_char U n i ch)"
    then have z: "letter_zone i" and "ascii_upper_letter (corrected_char U n i ch)"
      by (auto dest: digit_to_letter_range)
    then have "\<not> isdigit U (corrected_char U n i ch)"
      by (simp add: ascii_upper_class)
    with z show ?thesis
      by (auto simp: corrected_char_cases [of U n i "corrected_char U n i ch"] letter_zone_def)
  next
    assume "digit_zone i \<and> isalpha U ch \<and> corrections ch = Some (corrected_char U n i ch)"
    then have z: "digit_zone i" and "ascii_digit (corrected_char U n i ch)"
      by (auto dest: corrections_range)
    then have "\<not> isalpha U (corrected_char U n i ch)"
      by (simp add: ascii_digit_class)
    with z show ?thesis
      by (auto simp: corrected_char_cases [of U n i "corrected_char U n i ch"] digit_zone_def)
  qed
qed

lemma corrected_idem: "corrected U (corrected U t) = corrected U t"
  by (rule nth_equalityI) (simp_all add: length_corrected nth_corrected corrected_char_idem)

lemma processed_cases:
  "processed U raw = [] \<or>
     (raw \<noteq> [] \<and> 4 \<le> length (cleanup U raw) \<and> processed U raw = corrected U (cleanup U raw)
        \<and> (re_match U plate_pattern (processed U raw) \<or> fallback_ok U (processed U raw)))"
  by (auto simp: processed_def post_process_text_eq)

lemma processed_fixed:
  assumes "case_stable U raw"
  shows "processed U (processed U raw) = processed U raw
    \<and> cleanup U (processed U raw) = processed U raw
    \<and> corrected U (processed U raw) = processed U raw"
proof (cases "processed U raw = []")
  case True
  then show ?thesis
    by (simp add: processed_def post_process_text_eq cleanup_def upper_def corrected_def)
next
  case False
  with processed_cases [of U raw]
  have len: "4 \<le> length (cleanup U raw)"
    and p: "processed U raw = corrected U (cleanup U raw)"
    and ok: "re_match U plate_pattern (processed U raw) \<or> fallback_ok U (processed U raw)"
    by auto
  have "\<forall>d \<in> set (cleanup U raw). stable_char U d"
    using cleanup_stable [OF assms] by blast
  then have "\<forall>d \<in> set (processed U raw). stable_char U d"
    unfolding p using corrected_stable by blast
  then have cl: "cleanup U (processed U raw) = processed U raw"
    by (rule cleanup_fixed)
  have co: "corrected U (processed U raw) = processed U raw"
    unfolding p by (rule corrected_idem)
  have l: "4 \<le> length (processed U raw)"
    using len by (simp add: p length_corrected)
  have "post_process_text U (processed U raw) = Inr (processed U raw)"
    using False ok l by (simp add: post_process_text_eq [of U "processed U raw"] cl co)
  then have "processed U (processed U raw) = processed U raw"
    by (simp add: processed_def)
  with cl co show ?thesis by simp
qed

section \<open>The second variant and the validity test\<close>

lemma first_some_Some: "first_some f ks = Some r \<Longrightarrow> \<exists>k \<in> set ks. f k = Some r"
  by (induction ks) (auto split: option.splits)

lemma match_end_Rep:
  assumes "match_end U (Rep cls lo hi # items) pos s = Some n"
  shows "\<exists>k m. lo \<le> k \<and> k \<le> hi \<and> k \<le> length s \<and> list_all (in_class U cls) (take k s)
           \<and> match_end U items (pos + k) (drop k s) = Some m \<and> n = k + m"
proof -
  from assms first_some_Some
  obtain k where k: "k \<in> set (rev [lo..<Suc hi])"
      "(if k \<le> length s \<and> list_all (in_class U cls) (take k s)
        then (case match_end U items (pos + k) (drop k s) of
                Some m \<Rightarrow> Some (k + m) | None \<Rightarrow> None)
        else None) = Some n"
    unfolding match_end.simps by fast
  from k(2) obtain m where "k \<le> length s" "list_all (in_class U cls) (take k s)"
      "match_end U items (pos + k) (drop k s) = Some m" "n = k + m"
    by (auto split: if_splits option.splits)
  moreover from k(1) have "lo \<le> k" "k \<le> hi" by auto
  ultimately show ?thesis by blast
qed

lemma match_end_le: "match_end U items pos s = Some n \<Longrightarrow> n \<le> length s"
proof (induction items arbitrary: pos s n)
  case Nil
  then show ?case by simp
next
  case (Cons item items)
  show ?case
  proof (cases item)
    case Bol
    with Cons show ?thesis by (auto split: if_splits)
  next
    case Eol
    with Cons show ?thesis by (auto split: if_splits)
  next
    case (Rep cls lo hi)
    with Cons.prems match_end_Rep [of U cls lo hi items pos s n]
    obtain k m where km: "k \<le> length s" "match_end U items (pos + k) (drop k s) = Some m" "n = k + m"
      by blast
    from Cons.IH [OF km(2)] km(1,3) show ?thesis by simp
  qed
qed

lemma backend_match_core:
  assumes "match_end U backend_plate_pattern pos s = Some n"
  shows "plate_core U (take n s)"
proof -
  have "\<exists>k m. 2 \<le> k \<and> k \<le> 2 \<and> k \<le> length s
      \<and> list_all (in_class U (Range (ord_of CHR ''A'') (ord_of CHR ''Z''))) (take k s)
      \<and> match_end U [Rep DecimalDigit 1 2, Rep (Range (ord_of CHR ''A'') (ord_of CHR ''Z'')) 1 2,
           Rep DecimalDigit 1 4] (pos + k) (drop k s) = Some m \<and> n = k + m"
    using assms unfolding backend_plate_pattern_def by (rule match_end_Rep)
  then obtain k1 m1 where 1: "2 \<le> k1" "k1 \<le> 2" "k1 \<le> length s"
      "list_all (in_class U (Range (ord_of CHR ''A'') (ord_of CHR ''Z''))) (take k1 s)"
      "match_end U [Rep DecimalDigit 1 2, Rep (Range (ord_of CHR ''A'') (ord_of CHR ''Z'')) 1 2,
         Rep DecimalDigit 1 4] (pos + k1) (drop k1 s) = Some m1" "n = k1 + m1"
    by blast
  have "\<exists>k m. 1 \<le> k \<and> k \<le> 2 \<and> k \<le> length (drop k1 s)
      \<and> list_all (in_class U DecimalDigit) (take k (drop k1 s))
      \<and> match_end U [Rep (Range (ord_of CHR ''A'') (ord_of CHR ''Z'')) 1 2, Rep DecimalDigit 1 4]
           (pos + k1 + k) (drop k (drop k1 s)) = Some m \<and> m1 = k + m"
    using 1(5) by (rule match_end_Rep)
  then obtain k2 m2 where 2: "1 \<le> k2" "k2 \<le> 2" "k2 \<le> length (drop k1 s)"
      "list_all (in_class U DecimalDigit) (take k2 (drop k1 s))"
      "match_end U [Rep (Range (ord_of CHR ''A'') (ord_of CHR ''Z'')) 1 2, Rep DecimalDigit 1 4]
         (pos + k1 + k2) (drop k2 (drop k1 s)) = Some m2" "m1 = k2 + m2"
    by blast
  have "\<exists>k m. 1 \<le> k \<and> k \<le> 2 \<and> k \<le> length (drop k2 (drop k1 s))
      \<and> list_all (in_class U (Range (ord_of CHR ''A'') (ord_of CHR ''Z''))) (take k (drop k2 (drop k1 s)))
      \<and> match_end U [Rep DecimalDigit 1 4] (pos + k1 + k2 + k) (drop k (drop k2 (drop k1 s))) = Some m
      \<and> m2 = k + m"
    using 2(5) by (rule match_end_Rep)
  then obtain k3 m3 where 3: "1 \<le> k3" "k3 \<le> 2" "k3 \<le> length (drop k2 (drop k1 s))"
      "list_all (in_class U (Range (ord_of CHR ''A'') (ord_of CHR ''Z''))) (take k3 (drop k2 (drop k1 s)))"
      "match_end U [Rep DecimalDigit 1 4] (pos + k1 + k2 + k3) (drop k3 (drop k2 (drop k1 s))) = Some m3"
      "m2 = k3 + m3"
    by blast
  have "\<exists>k m. 1 \<le> k \<and> k \<le> 4 \<and> k \<le> length (drop k3 (drop k2 (drop k1 s)))
      \<and> list_all (in_class U DecimalDigit) (take k (drop k3 (drop k2 (drop k1 s))))
      \<and> match_end U [] (pos + k1 + k2 + k3 + k) (drop k (drop k3 (drop k2 (drop k1 s)))) = Some m
      \<and> m3 = k + m"
    using 3(5) by (rule match_end_Rep)
  then obtain k4 m4 where 4: "1 \<le> k4" "k4 \<le> 4" "k4 \<le> length (drop k3 (drop k2 (drop k1 s)))"
      "list_all (in_class U DecimalDigit) (take k4 (drop k3 (drop k2 (drop k1 s))))"
      "match_end U [] (pos + k1 + k2 + k3 + k4) (drop k4 (drop k3 (drop k2 (drop k1 s)))) = Some m4"
      "m3 = k4 + m4"
    by blast
  from 4(5) have m4: "m4 = 0" by simp
  define a1 where "a1 = take k1 s"
  define a2 where "a2 = take k2 (drop k1 s)"
  define a3 where "a3 = take k3 (drop k2 (drop k1 s))"
  define a4 where "a4 = take k4 (drop k3 (drop k2 (drop k1 s)))"
  have n: "n = k1 + (k2 + (k3 + k4))"
    using 1(6) 2(6) 3(6) 4(6) m4 by simp
  have split: "take n s = a1 @ a2 @ a3 @ a4"
    unfolding n a1_def a2_def a3_def a4_def by (simp add: take_add)
  have l1: "length a1 = 2"
    using 1(1,2,3) by (simp add: a1_def)
  have l2: "1 \<le> length a2" "length a2 \<le> 2"
    using 2(1,2,3) by (simp_all add: a2_def)
  have l3: "1 \<le> length a3" "length a3 \<le> 2"
    using 3(1,2,3) by (simp_all add: a3_def)
  have l4: "1 \<le> length a4" "length a4 \<le> 4"
    using 4(1,2,3) by (simp_all add: a4_def)
  have c1: "list_all ascii_upper_letter a1" and c3: "list_all ascii_upper_letter a3"
    using 1(4) 3(4) by (simp_all add: in_class_AZ a1_def a3_def)
  have c2: "list_all (isdecimal U) a2" and c4: "list_all (isdecimal U) a4"
    using 2(4) 4(4) by (simp_all add: in_class_digit a2_def a4_def)
  from split l1 l2 l3 l4 c1 c2 c3 c4 show ?thesis
    unfolding plate_core_def by blast
qed

lemma findall_from_sound:
  "m \<in> set (findall_from U items pos skip s) \<Longrightarrow>
     \<exists>pre post q. s = pre @ m @ post \<and> match_end U items q (m @ post) = Some (length m)"
proof (induction s arbitrary: pos skip)
  case Nil
  show ?case
  proof (cases "match_end U items pos []")
    case None
    with Nil show ?thesis by simp
  next
    case (Some n)
    with Nil have m: "m = []" by simp
    from match_end_le [OF Some] have "n = 0" by simp
    with Some have "[] = [] @ m @ [] \<and> match_end U items pos (m @ []) = Some (length m)"
      by (simp add: m)
    then show ?thesis by blast
  qed
next
  case (Cons c s)
  have step: "\<exists>pre post q. c # s = pre @ m @ post \<and> match_end U items q (m @ post) = Some (length m)"
    if "m \<in> set (findall_from U items pos' skip' s)" for pos' skip'
  proof -
    from Cons.IH [OF that] obtain pre post q where
      "s = pre @ m @ post" "match_end U items q (m @ post) = Some (length m)"
      by blast
    then have "c # s = (c # pre) @ m @ post \<and> match_end U items q (m @ post) = Some (length m)"
      by simp
    then show ?thesis by blast
  qed
  show ?case
  proof (cases "0 < skip")
    case True
    with Cons.prems have "m \<in> set (findall_from U items (Suc pos) (skip - 1) s)"
      by simp
    then show ?thesis by (rule step)
  next
    case False
    show ?thesis
    proof (cases "match_end U items pos (c # s)")
      case None
      with False Cons.prems have "m \<in> set (findall_from U items (Suc pos) 0 s)"
        by simp
      then show ?thesis by (rule step)
    next
      case (Some n)
      with False Cons.prems
      consider "m = take n (c # s)" | "m \<in> set (findall_from U items (Suc pos) (n - 1) s)"
        by auto
      then show ?thesis
      proof cases
        case 1
        from match_end_le [OF Some] have len: "length m = n"
          by (simp add: 1)
        have "c # s = [] @ m @ drop n (c # s)"
          by (simp add: 1)
        moreover have "match_end U items pos (m @ drop n (c # s)) = Some (length m)"
          using Some len by (simp add: 1)
        ultimately show ?thesis by blast
      next
        case 2
        then show ?thesis by (rule step)
      qed
    qed
  qed
qed

lemma replaced_everywhere_eq:
  "str_replace (ord_of CHR ''8'') (ord_of CHR ''B'')
     (str_replace (ord_of CHR ''1'') (ord_of CHR ''I'')
        (str_replace (ord_of CHR ''0'') (ord_of CHR ''O'') s)) = replaced_everywhere s"
  by (simp add: str_replace_def replaced_everywhere_def ord_of_vals)


lemma post_process_plate_text_cases:
  "post_process_plate_text U raw =
       (if length (sub_not_AZ09 (upper U raw)) < 6 then sub_not_AZ09 (upper U raw)
        else replaced_everywhere (sub_not_AZ09 (upper U raw)))
   \<or> (6 \<le> length (sub_not_AZ09 (upper U raw))
       \<and> (\<exists>pre post. replaced_everywhere (sub_not_AZ09 (upper U raw))
                       = pre @ post_process_plate_text U raw @ post)
       \<and> plate_core U (post_process_plate_text U raw))"
proof (cases "length (sub_not_AZ09 (upper U raw)) < 6")
  case True
  then show ?thesis by (simp add: post_process_plate_text_def)
next
  case False
  define t where "t = replaced_everywhere (sub_not_AZ09 (upper U raw))"
  show ?thesis
  proof (cases "findall U backend_plate_pattern t")
    case Nil
    with False show ?thesis
      by (simp add: post_process_plate_text_def replaced_everywhere_eq t_def [symmetric])
  next
    case (Cons m ms)
    with False have r: "post_process_plate_text U raw = m"
      by (simp add: post_process_plate_text_def replaced_everywhere_eq t_def [symmetric])
    from Cons have "m \<in> set (findall_from U backend_plate_pattern 0 0 t)"
      by (simp add: findall_def)
    from findall_from_sound [OF this] obtain pre post q where
      pp: "t = pre @ m @ post" "match_end U backend_plate_pattern q (m @ post) = Some (length m)"
      by blast
    from backend_match_core [OF pp(2)] have "plate_core U m" by simp
    with pp(1) False show ?thesis
      unfolding r t_def [symmetric] by auto
  qed
qed


lemma is_valid_plate_iff:
  "is_valid_plate U s \<longleftrightarrow>
     5 \<le> length s \<and> (\<exists>c \<in> set s. isalpha U c) \<and> (\<exists>c \<in> set s. isdigit U c)"
  by (auto simp: is_valid_plate_def Let_def list_ex_iff)

section \<open>The claims\<close>

subsection \<open>Totality\<close>

text \<open>
  C1: for every raw text (empty, non-ASCII, of any length) the post-processing returns a
  text, and for every list of OCR results the recognition returns a pair of a text and a
  confidence; no input makes either of them raise. Both are functions defined by
  structural recursion, so they return in finite time.
\<close>

theorem normalizer_total:
  "(\<exists>p. post_process_text U raw = Inr p) \<and> (\<exists>t c. recognize_plate U all_results = Inr (t, c))"
proof
  show "\<exists>p. post_process_text U raw = Inr p"
    by (simp add: post_process_text_processed)
  show "\<exists>t c. recognize_plate U all_results = Inr (t, c)"
    by (simp add: recognize_plate_eq)
qed

theorem normalizer_total_witness:
  "(\<exists>p. post_process_text excerpt_db [233, 780, 10, 0] = Inr p)
   \<and> (\<exists>t c. recognize_plate excerpt_db [((), [], 3 / 10), ((), [496, 32, 233], 1 / 5)] = Inr (t, c))"
  by (rule normalizer_total)

subsection \<open>No acceptable candidate\<close>

text \<open>
  C2: on the empty list of OCR results, and on a list all of whose texts are rejected
  (post-processed to the empty string), the result is the empty text with confidence 0,
  returned as a value and not raised.
\<close>

theorem no_candidate_empty_result:
  "recognize_plate U [] = Inr ([], 0)
   \<and> ((\<forall>r \<in> set all_results. post_process_text U (fst (snd r)) = Inr [])
        \<longrightarrow> recognize_plate U all_results = Inr ([], 0))"
proof (intro conjI impI)
  show "recognize_plate U [] = Inr ([], 0)"
    by (simp add: recognize_plate_def)
next
  assume rejected: "\<forall>r \<in> set all_results. post_process_text U (fst (snd r)) = Inr []"
  have "processed U (fst (snd r)) = []" if "r \<in> set all_results" for r
    using rejected that by (simp add: processed_def)
  then have "accepted U all_results = []"
    by (auto simp: accepted_def filter_empty_conv)
  then show "recognize_plate U all_results = Inr ([], 0)"
    by (simp add: recognize_plate_eq sort_reverse_def)
qed

theorem no_candidate_empty_result_witness:
  "post_process_text excerpt_db (str ''AB'') = Inr []
   \<and> post_process_text excerpt_db (str ''12-34'') = Inr []
   \<and> post_process_text excerpt_db [] = Inr []
   \<and> recognize_plate excerpt_db [((), str ''AB'', 99 / 100), ((), str ''12-34'', 1 / 2), ((), [], 1)]
       = Inr ([], 0)"
proof -
  have h: "post_process_text excerpt_db (str ''AB'') = Inr []"
    "post_process_text excerpt_db (str ''12-34'') = Inr []"
    "post_process_text excerpt_db [] = Inr []"
    by code_simp+
  then have "\<forall>r \<in> set [((), str ''AB'', 99 / 100 :: real), ((), str ''12-34'', 1 / 2), ((), [], 1)].
       post_process_text excerpt_db (fst (snd r)) = Inr []"
    by simp
  with h no_candidate_empty_result [of excerpt_db "[((), str ''AB'', 99 / 100), ((), str ''12-34'', 1 / 2), ((), [], 1)]"]
  show ?thesis by blast
qed

subsection \<open>Character cleanup\<close>

text \<open>
  C3: (as amended) the cleanup keeps the characters that are alphanumeric for
  \<open>str.isalnum\<close> and upper-cases them with \<open>str.upper\<close>. Among ASCII characters
  the alphanumeric ones are exactly the letters and digits, so on an ASCII text the cleanup
  is what the specification describes: strip what is not an ASCII letter or digit,
  upper-case the rest. A cleaned string shorter than 4 characters is rejected: the
  result is the empty string, and the candidate alone gives the empty text with
  confidence 0. As stated for every raw text the claim fails: a non-ASCII letter such as
  U+00C9 is kept (the counterexample below).
\<close>

theorem cleanup_step:
  "cleanup U raw = concat (map (upper_char U) (filter (isalnum U) raw))
   \<and> (c < 128 \<longrightarrow> isalnum U c = ascii_letter_or_digit c)
   \<and> ((\<forall>c \<in> set raw. c < 128) \<longrightarrow> cleanup U raw = spec_cleanup raw)
   \<and> (length (cleanup U raw) < 4 \<longrightarrow>
         post_process_text U raw = Inr [] \<and> recognize_plate U [(bbox, raw, conf)] = Inr ([], 0))"
proof -
  have a: "cleanup U raw = concat (map (upper_char U) (filter (isalnum U) raw))"
    by (simp add: cleanup_def upper_def)
  have b: "c < 128 \<longrightarrow> isalnum U c = ascii_letter_or_digit c"
    by (simp add: ascii_isalnum)
  have c: "(\<forall>c \<in> set raw. c < 128) \<longrightarrow> cleanup U raw = spec_cleanup raw"
    by (simp add: cleanup_ascii)
  have d: "post_process_text U raw = Inr [] \<and> recognize_plate U [(bbox, raw, conf)] = Inr ([], 0)"
    if "length (cleanup U raw) < 4"
    using processed_short [OF that]
    by (simp add: recognize_plate_single post_process_text_processed)
  from a b c d show ?thesis by blast
qed

theorem cleanup_step_witness:
  "cleanup excerpt_db (str ''a-1 b'') = spec_cleanup (str ''a-1 b'')
   \<and> spec_cleanup (str ''a-1 b'') = str ''A1B''
   \<and> length (cleanup excerpt_db (str ''a-1 b'')) < 4
   \<and> post_process_text excerpt_db (str ''a-1 b'') = Inr []
   \<and> recognize_plate excerpt_db [((), str ''a-1 b'', 9 / 10)] = Inr ([], 0)"
proof -
  have ascii: "\<forall>c \<in> set (str ''a-1 b''). c < 128"
    by (simp add: str_def ord_of_def)
  have spec: "spec_cleanup (str ''a-1 b'') = str ''A1B''"
    by code_simp
  have short: "length (cleanup excerpt_db (str ''a-1 b'')) < 4"
    by code_simp
  from ascii spec short cleanup_step [of excerpt_db "str ''a-1 b''" 0 "()" "9 / 10"]
  show ?thesis by blast
qed

theorem cleanup_step_counterexample:
  "cleanup excerpt_db (201 # str ''A1234'') = 201 # str ''A1234''
   \<and> spec_cleanup (201 # str ''A1234'') = str ''A1234''
   \<and> cleanup excerpt_db (201 # str ''A1234'') \<noteq> spec_cleanup (201 # str ''A1234'')
   \<and> post_process_text excerpt_db (201 # str ''A1234'') = Inr (201 # str ''A1234'')"
  by code_simp

subsection \<open>Zone restriction of the two tables\<close>




subsection \<open>Grammar validation\<close>

text \<open>
  C5: (as amended) in \<open>ANPRModel._post_process_text\<close> the test
  \<open>re.match(plate_pattern, processed_text)\<close> on the corrected string holds exactly
  when the whole corrected string has the shape of the plate grammar (2 letters, 1-2
  digits, 1-2 letters, 1-4 digits, an optional trailing letter), and a corrected string of
  that shape is returned as it is. Python's \<open>$\<close> also matches before a final line
  feed; the corrected string holds none, since the cleanup removes line feeds and the
  upper case of a character never holds one (the last hypothesis).
  \<open>ANPRBackend._post_process_plate_text\<close> does not anchor: a cleaned string shorter
  than 6 characters is returned as it is; a longer one, after the replacements, is
  returned whole or cut down to a contiguous part of the shape 2 letters, 1-2 digits, 1-2
  letters, 1-4 digits, without trailing letter. As stated for both variants the claim
  fails: the second one drops the trailing letter of a string that matches the grammar
  (the counterexample below).
\<close>

theorem grammar_validation:
  assumes "raw \<noteq> []" and "4 \<le> length (cleanup U raw)"
    and "correct_loop U (length (cleanup U raw)) 0 (cleanup U raw) [] = Inr p"
    and "\<forall>c \<in> set raw. 128 \<le> c \<longrightarrow> 10 \<notin> set (db_upper U c)"
  shows "(re_match U plate_pattern p \<longleftrightarrow> plate_grammar U p)
    \<and> (plate_grammar U p \<longrightarrow> post_process_text U raw = Inr p)
    \<and> (length (sub_not_AZ09 (upper U s)) < 6 \<longrightarrow>
          post_process_plate_text U s = sub_not_AZ09 (upper U s))
    \<and> (6 \<le> length (sub_not_AZ09 (upper U s)) \<longrightarrow>
          post_process_plate_text U s = replaced_everywhere (sub_not_AZ09 (upper U s))
          \<or> ((\<exists>pre post. replaced_everywhere (sub_not_AZ09 (upper U s))
                            = pre @ post_process_plate_text U s @ post)
              \<and> plate_core U (post_process_plate_text U s)))"
proof -
  have p: "p = corrected U (cleanup U raw)"
    using assms(3) by (simp add: correct_loop_result)
  have "10 \<notin> set p"
    unfolding p by (rule corrected_no_newline) (rule cleanup_no_newline [OF assms(4)])
  then have "\<not> (\<exists>s'. p = s' @ [10] \<and> plate_grammar U s')"
    by auto
  then have iff: "re_match U plate_pattern p \<longleftrightarrow> plate_grammar U p"
    using re_match_plate_pattern [of U p] by blast
  have "post_process_text U raw = Inr p" if "plate_grammar U p"
    using that iff assms(1,2) by (simp add: post_process_text_eq p)
  moreover have "post_process_plate_text U s = sub_not_AZ09 (upper U s)"
    if "length (sub_not_AZ09 (upper U s)) < 6"
    using that by (simp add: post_process_plate_text_def)
  moreover have "post_process_plate_text U s = replaced_everywhere (sub_not_AZ09 (upper U s))
          \<or> ((\<exists>pre post. replaced_everywhere (sub_not_AZ09 (upper U s))
                            = pre @ post_process_plate_text U s @ post)
              \<and> plate_core U (post_process_plate_text U s))"
    if "6 \<le> length (sub_not_AZ09 (upper U s))"
    using that post_process_plate_text_cases [of U s] by auto
  ultimately show ?thesis using iff by blast
qed

theorem grammar_validation_witness:
  "str ''ka-05 mn 1234'' \<noteq> []
   \<and> 4 \<le> length (cleanup excerpt_db (str ''ka-05 mn 1234''))
   \<and> correct_loop excerpt_db (length (cleanup excerpt_db (str ''ka-05 mn 1234''))) 0
         (cleanup excerpt_db (str ''ka-05 mn 1234'')) [] = Inr (str ''KA05MN1234'')
   \<and> re_match excerpt_db plate_pattern (str ''KA05MN1234'')
   \<and> plate_grammar excerpt_db (str ''KA05MN1234'')
   \<and> post_process_text excerpt_db (str ''ka-05 mn 1234'') = Inr (str ''KA05MN1234'')
   \<and> length (sub_not_AZ09 (upper excerpt_db (str ''ab-12''))) < 6
   \<and> post_process_plate_text excerpt_db (str ''ab-12'') = sub_not_AZ09 (upper excerpt_db (str ''ab-12''))"
proof -
  have a: "str ''ka-05 mn 1234'' \<noteq> []"
    by (simp add: str_def)
  have b: "4 \<le> length (cleanup excerpt_db (str ''ka-05 mn 1234''))"
    by code_simp
  have c: "correct_loop excerpt_db (length (cleanup excerpt_db (str ''ka-05 mn 1234''))) 0
         (cleanup excerpt_db (str ''ka-05 mn 1234'')) [] = Inr (str ''KA05MN1234'')"
    by code_simp
  have d: "\<forall>c \<in> set (str ''ka-05 mn 1234''). 128 \<le> c \<longrightarrow> 10 \<notin> set (db_upper excerpt_db c)"
    by (simp add: excerpt_db_def)
  have m: "re_match excerpt_db plate_pattern (str ''KA05MN1234'')"
    by code_simp
  have l: "length (sub_not_AZ09 (upper excerpt_db (str ''ab-12''))) < 6"
    by code_simp
  from a b c m l grammar_validation [OF a b c d, of "str ''ab-12''"] show ?thesis by blast
qed

theorem grammar_validation_counterexample:
  "re_match excerpt_db plate_pattern (str ''KA55MN2345X'')
   \<and> post_process_text excerpt_db (str ''KA55MN2345X'') = Inr (str ''KA55MN2345X'')
   \<and> post_process_plate_text excerpt_db (str ''KA55MN2345X'') = str ''KA55MN2345''
   \<and> post_process_plate_text excerpt_db (str ''KA55MN2345X'') \<noteq> str ''KA55MN2345X''"
  by code_simp

subsection \<open>Fallback acceptance\<close>

text \<open>
  C6: (as amended) in \<open>ANPRModel._post_process_text\<close> a corrected string that does
  not match the plate pattern is returned (accepted) exactly when it has at least 6
  characters, at least one letter (\<open>isalpha\<close>) and at least one digit
  (\<open>isdigit\<close>); otherwise the text is rejected: the result is the empty string, and the
  candidate alone gives the empty text with confidence 0.
  \<open>ModelHandler._is_valid_plate\<close> has a lower threshold: it accepts a text exactly
  when it has at least 5 characters, at least one letter and at least one digit. As
  stated for both the claim fails: a text of 5 characters is accepted by the second
  (the counterexample below).
\<close>

theorem fallback_acceptance:
  assumes "raw \<noteq> []" and "4 \<le> length (cleanup U raw)"
    and "correct_loop U (length (cleanup U raw)) 0 (cleanup U raw) [] = Inr p"
    and "\<not> re_match U plate_pattern p"
  shows "(post_process_text U raw = Inr p
           \<longleftrightarrow> 6 \<le> length p \<and> (\<exists>c \<in> set p. isalpha U c) \<and> (\<exists>c \<in> set p. isdigit U c))
    \<and> (post_process_text U raw \<noteq> Inr p
           \<longrightarrow> post_process_text U raw = Inr []
               \<and> recognize_plate U [(bbox, raw, conf)] = Inr ([], 0))
    \<and> p \<noteq> []
    \<and> (is_valid_plate U s
           \<longleftrightarrow> 5 \<le> length s \<and> (\<exists>c \<in> set s. isalpha U c) \<and> (\<exists>c \<in> set s. isdigit U c))"
proof -
  have p: "p = corrected U (cleanup U raw)"
    using assms(3) by (simp add: correct_loop_result)
  have ne: "p \<noteq> []"
    using assms(2) by (auto simp: p corrected_def)
  have res: "post_process_text U raw = Inr (if fallback_ok U p then p else [])"
    using assms(1,2,4) by (simp add: post_process_text_eq p)
  have fb: "fallback_ok U p \<longleftrightarrow>
      6 \<le> length p \<and> (\<exists>c \<in> set p. isalpha U c) \<and> (\<exists>c \<in> set p. isdigit U c)"
    by (simp add: fallback_ok_def list_ex_iff)
  have acc: "post_process_text U raw = Inr p \<longleftrightarrow> fallback_ok U p"
    using ne by (auto simp: res)
  have rej: "post_process_text U raw = Inr [] \<and> recognize_plate U [(bbox, raw, conf)] = Inr ([], 0)"
    if "post_process_text U raw \<noteq> Inr p"
  proof -
    from that acc have r: "post_process_text U raw = Inr []"
      by (simp add: res)
    then have "processed U raw = []"
      by (simp add: processed_def)
    then have "accepted U [(bbox, raw, conf)] = []"
      by (simp add: accepted_def)
    then show ?thesis
      using r by (simp add: recognize_plate_eq sort_reverse_def)
  qed
  note valid = is_valid_plate_iff [of U s]
  from acc fb rej ne valid show ?thesis by blast
qed

theorem fallback_acceptance_witness:
  "str ''XY 1234'' \<noteq> []
   \<and> 4 \<le> length (cleanup excerpt_db (str ''XY 1234''))
   \<and> correct_loop excerpt_db (length (cleanup excerpt_db (str ''XY 1234''))) 0
         (cleanup excerpt_db (str ''XY 1234'')) [] = Inr (str ''XY1234'')
   \<and> \<not> re_match excerpt_db plate_pattern (str ''XY1234'')
   \<and> 6 \<le> length (str ''XY1234'')
   \<and> (\<exists>c \<in> set (str ''XY1234''). isalpha excerpt_db c)
   \<and> (\<exists>c \<in> set (str ''XY1234''). isdigit excerpt_db c)
   \<and> post_process_text excerpt_db (str ''XY 1234'') = Inr (str ''XY1234'')
   \<and> is_valid_plate excerpt_db (str ''XY1234'')"
proof -
  have a: "str ''XY 1234'' \<noteq> []"
    by (simp add: str_def)
  have b: "4 \<le> length (cleanup excerpt_db (str ''XY 1234''))"
    by code_simp
  have c: "correct_loop excerpt_db (length (cleanup excerpt_db (str ''XY 1234''))) 0
         (cleanup excerpt_db (str ''XY 1234'')) [] = Inr (str ''XY1234'')"
    by code_simp
  have d: "\<not> re_match excerpt_db plate_pattern (str ''XY1234'')"
    by code_simp
  have e: "post_process_text excerpt_db (str ''XY 1234'') = Inr (str ''XY1234'')"
    by code_simp
  have f: "5 \<le> length (str ''XY1234'')"
    by (simp add: str_def)
  have g: "(\<exists>c \<in> set (str ''XY1234''). isalpha excerpt_db c)
      \<and> (\<exists>c \<in> set (str ''XY1234''). isdigit excerpt_db c)"
    by code_simp
  from a b c d e f g fallback_acceptance [OF a b c d, of "()" 0 "str ''XY1234''"] show ?thesis by blast
qed

theorem fallback_acceptance_counterexample:
  "is_valid_plate excerpt_db (str ''XY123'')
   \<and> length (str ''XY123'') < 6
   \<and> post_process_text excerpt_db (str ''XY123'') = Inr []"
  by code_simp

subsection \<open>Selection across candidates\<close>

text \<open>
  C7: the list \<open>candidates\<close> that the loop collects holds the accepted candidates in
  input order. If it is empty the result is the empty text with confidence 0. Otherwise the
  result is the candidate at some index \<open>i\<close> whose confidence is the highest of the
  list, and every candidate before \<open>i\<close> has a strictly lower confidence: among the
  candidates of highest confidence the earliest wins.
\<close>

theorem selection_highest_confidence_first:
  assumes "collect_candidates U all_results [] = Inr candidates"
  shows "candidates = accepted U all_results
    \<and> (candidates = [] \<longrightarrow> recognize_plate U all_results = Inr ([], 0))
    \<and> (candidates \<noteq> [] \<longrightarrow>
         (\<exists>i<length candidates. recognize_plate U all_results = Inr (candidates ! i)
            \<and> (\<forall>j<length candidates. snd (candidates ! j) \<le> snd (candidates ! i))
            \<and> (\<forall>j<i. snd (candidates ! j) < snd (candidates ! i))))"
proof -
  have c: "candidates = accepted U all_results"
    using assms by (simp add: collect_candidates_eq)
  have none: "recognize_plate U all_results = Inr ([], 0)" if "candidates = []"
    using that by (simp add: recognize_plate_eq c [symmetric] sort_reverse_def)
  have some: "\<exists>i<length candidates. recognize_plate U all_results = Inr (candidates ! i)
            \<and> (\<forall>j<length candidates. snd (candidates ! j) \<le> snd (candidates ! i))
            \<and> (\<forall>j<i. snd (candidates ! j) < snd (candidates ! i))" if "candidates \<noteq> []"
  proof -
    from that have "sort_reverse candidates \<noteq> []"
      by (simp add: sort_reverse_Nil)
    then have "recognize_plate U all_results = Inr (hd (sort_reverse candidates))"
      by (cases "sort_reverse candidates") (simp_all add: recognize_plate_eq c [symmetric])
    with sort_reverse_hd [OF that] show ?thesis by auto
  qed
  from c none some show ?thesis by blast
qed

theorem selection_highest_confidence_first_witness:
  "collect_candidates excerpt_db
       [((), str ''AB'', 99 / 100), ((), str ''KA05MN1234'', 1 / 2), ((), str ''xy-1234'', 7 / 10),
        ((), str ''MHO2BH1234'', 7 / 10)] []
     = Inr [(str ''KA05MN1234'', 1 / 2), (str ''XY1234'', 7 / 10), (str ''MH02BH1234'', 7 / 10)]
   \<and> recognize_plate excerpt_db
       [((), str ''AB'', 99 / 100), ((), str ''KA05MN1234'', 1 / 2), ((), str ''xy-1234'', 7 / 10),
        ((), str ''MHO2BH1234'', 7 / 10)]
     = Inr (str ''XY1234'', 7 / 10)
   \<and> (\<exists>i<length [(str ''KA05MN1234'', 1 / 2 :: real), (str ''XY1234'', 7 / 10), (str ''MH02BH1234'', 7 / 10)].
        recognize_plate excerpt_db
          [((), str ''AB'', 99 / 100), ((), str ''KA05MN1234'', 1 / 2), ((), str ''xy-1234'', 7 / 10),
           ((), str ''MHO2BH1234'', 7 / 10)]
        = Inr ([(str ''KA05MN1234'', 1 / 2), (str ''XY1234'', 7 / 10), (str ''MH02BH1234'', 7 / 10)] ! i))"
proof -
  have col: "collect_candidates excerpt_db
       [((), str ''AB'', 99 / 100), ((), str ''KA05MN1234'', 1 / 2), ((), str ''xy-1234'', 7 / 10),
        ((), str ''MHO2BH1234'', 7 / 10)] []
     = Inr [(str ''KA05MN1234'', 1 / 2), (str ''XY1234'', 7 / 10), (str ''MH02BH1234'', 7 / 10)]"
    by code_simp
  have res: "recognize_plate excerpt_db
       [((), str ''AB'', 99 / 100), ((), str ''KA05MN1234'', 1 / 2), ((), str ''xy-1234'', 7 / 10),
        ((), str ''MHO2BH1234'', 7 / 10)]
     = Inr (str ''XY1234'', 7 / 10)"
    by code_simp
  have ne: "[(str ''KA05MN1234'', 1 / 2 :: real), (str ''XY1234'', 7 / 10), (str ''MH02BH1234'', 7 / 10)] \<noteq> []"
    by simp
  from selection_highest_confidence_first [OF col] ne
  have "\<exists>i<length [(str ''KA05MN1234'', 1 / 2 :: real), (str ''XY1234'', 7 / 10), (str ''MH02BH1234'', 7 / 10)].
        recognize_plate excerpt_db
          [((), str ''AB'', 99 / 100), ((), str ''KA05MN1234'', 1 / 2), ((), str ''xy-1234'', 7 / 10),
           ((), str ''MHO2BH1234'', 7 / 10)]
        = Inr ([(str ''KA05MN1234'', 1 / 2), (str ''XY1234'', 7 / 10), (str ''MH02BH1234'', 7 / 10)] ! i)"
    by blast
  with col res show ?thesis by blast
qed

subsection \<open>The example MHO2BH1234\<close>

text \<open>
  C8: the single candidate \<open>MHO2BH1234\<close> with confidence 0.8 gives
  \<open>MH02BH1234\<close> with confidence 0.8: the letter O at index 2 becomes the digit 0.
  The confidence is copied: the same holds for every confidence, and whenever the result
  has a non-empty text, its confidence is that of an OCR result whose text post-processes
  to the returned text.
\<close>

theorem mho2bh1234_example:
  "recognize_plate U [(bbox, str ''MHO2BH1234'', 8 / 10)] = Inr (str ''MH02BH1234'', 8 / 10)
   \<and> str ''MHO2BH1234'' ! 2 = ord_of CHR ''O''
   \<and> corrected U (cleanup U (str ''MHO2BH1234'')) ! 2 = ord_of CHR ''0''
   \<and> (\<forall>conf. recognize_plate U [(bbox, str ''MHO2BH1234'', conf)] = Inr (str ''MH02BH1234'', conf))
   \<and> (recognize_plate U all_results = Inr (t, c) \<and> t \<noteq> []
        \<longrightarrow> (\<exists>b raw. (b, raw, c) \<in> set all_results \<and> post_process_text U raw = Inr t))"
proof -
  have ex: "recognize_plate U [(bbox, str ''MHO2BH1234'', conf)] = Inr (str ''MH02BH1234'', conf)" for conf
    by (simp add: recognize_plate_def post_process_text_def cleanup_def upper_def str_def
        ord_of_def isalnum_def isalpha_def isdigit_def isdecimal_def isnumeric_def
        ascii_digit_def ascii_upper_letter_def ascii_lower_letter_def upper_char_def
        correct_char_def corrections_def digit_to_letter_def contains_def getitem_def
        dict_get_def re_match_def plate_pattern_def sort_reverse_def)
  have pos: "str ''MHO2BH1234'' ! 2 = ord_of CHR ''O''"
    by (simp add: str_def)
  have cor: "corrected U (cleanup U (str ''MHO2BH1234'')) ! 2 = ord_of CHR ''0''"
    by (simp add: corrected_def corrected_char_def cleanup_def upper_def str_def
        ord_of_def isalnum_def isalpha_def isdigit_def isdecimal_def isnumeric_def
        ascii_digit_def ascii_upper_letter_def ascii_lower_letter_def upper_char_def
        correct_char_def corrections_def digit_to_letter_def contains_def getitem_def
        dict_get_def upt_rec)
  have copy: "\<exists>b raw. (b, raw, c) \<in> set all_results \<and> post_process_text U raw = Inr t"
    if "recognize_plate U all_results = Inr (t, c)" "t \<noteq> []"
    using that recognize_plate_cases [of U all_results] accepted_source [of t c U all_results]
    by (auto simp: post_process_text_processed)
  from ex pos cor copy show ?thesis by blast
qed

theorem mho2bh1234_example_witness:
  "recognize_plate excerpt_db [((), str ''AB'', 99 / 100), ((), str ''KA05MN1234'', 1 / 2)]
      = Inr (str ''KA05MN1234'', 1 / 2)
   \<and> str ''KA05MN1234'' \<noteq> []
   \<and> (\<exists>b raw. (b, raw, 1 / 2) \<in> set [((), str ''AB'', 99 / 100), ((), str ''KA05MN1234'', 1 / 2 :: real)]
        \<and> post_process_text excerpt_db raw = Inr (str ''KA05MN1234''))"
proof -
  have h: "recognize_plate excerpt_db [((), str ''AB'', 99 / 100), ((), str ''KA05MN1234'', 1 / 2)]
      = Inr (str ''KA05MN1234'', 1 / 2)"
    by code_simp
  have n: "str ''KA05MN1234'' \<noteq> []"
    by (simp add: str_def)
  from h n mho2bh1234_example [of excerpt_db "()" "[((), str ''AB'', 99 / 100), ((), str ''KA05MN1234'', 1 / 2)]" "str ''KA05MN1234''" "1 / 2"]
  show ?thesis by blast
qed

subsection \<open>Idempotence\<close>

text \<open>
  C9: (as amended) for every candidate whose raw text is case-stable, which every ASCII
  text is, a non-empty result fed back as a single candidate with its own confidence gives
  the same result, and the returned text is a fixed point of the cleanup and of the
  correction. As stated for every candidate the claim fails: the upper case of U+01F0 is
  \<open>J\<close> followed by the combining caron U+030C, which the second cleanup strips, so
  that the characters after it move into other zones (the counterexample below).
\<close>

theorem idempotent_on_case_stable_text:
  assumes "case_stable U raw"
    and "recognize_plate U [(bbox, raw, conf)] = Inr (t, c)"
    and "t \<noteq> []"
  shows "recognize_plate U [(bbox', t, c)] = Inr (t, c)
    \<and> post_process_text U t = Inr t
    \<and> cleanup U t = t
    \<and> correct_loop U (length t) 0 t [] = Inr t"
proof -
  from assms(2,3) have t: "t = processed U raw" and c: "c = conf"
    by (auto simp: recognize_plate_single split: if_splits)
  from processed_fixed [OF assms(1)]
  have fx: "processed U t = t" "cleanup U t = t" "corrected U t = t"
    by (simp_all add: t)
  have "recognize_plate U [(bbox', t, c)] = Inr (t, c)"
    using assms(3) by (simp add: recognize_plate_single fx(1))
  moreover have "post_process_text U t = Inr t"
    using fx(1) by (simp add: post_process_text_processed)
  moreover have "correct_loop U (length t) 0 t [] = Inr t"
    using fx(3) by (simp add: correct_loop_corrected)
  ultimately show ?thesis using fx(2) by blast
qed

theorem idempotent_on_case_stable_text_witness:
  "case_stable excerpt_db (233 # str ''a-02 bh 1234'')
   \<and> recognize_plate excerpt_db [((), 233 # str ''a-02 bh 1234'', 4 / 5)] = Inr (201 # str ''A02BH1234'', 4 / 5)
   \<and> 201 # str ''A02BH1234'' \<noteq> []
   \<and> recognize_plate excerpt_db [((), 201 # str ''A02BH1234'', 4 / 5)] = Inr (201 # str ''A02BH1234'', 4 / 5)
   \<and> case_stable excerpt_db (str ''mho2bh1234'')
   \<and> recognize_plate excerpt_db [((), str ''mho2bh1234'', 4 / 5)] = Inr (str ''MH02BH1234'', 4 / 5)
   \<and> recognize_plate excerpt_db [((), str ''MH02BH1234'', 4 / 5)] = Inr (str ''MH02BH1234'', 4 / 5)"
proof -
  have s1: "case_stable excerpt_db (233 # str ''a-02 bh 1234'')"
    by code_simp
  have r1: "recognize_plate excerpt_db [((), 233 # str ''a-02 bh 1234'', 4 / 5)] = Inr (201 # str ''A02BH1234'', 4 / 5)"
    by code_simp
  have n1: "201 # str ''A02BH1234'' \<noteq> []"
    by simp
  have s2: "case_stable excerpt_db (str ''mho2bh1234'')"
    by code_simp
  have r2: "recognize_plate excerpt_db [((), str ''mho2bh1234'', 4 / 5)] = Inr (str ''MH02BH1234'', 4 / 5)"
    by code_simp
  have n2: "str ''MH02BH1234'' \<noteq> []"
    by (simp add: str_def)
  from s1 r1 n1 s2 r2
    idempotent_on_case_stable_text [OF s1 r1 n1, of "()"]
    idempotent_on_case_stable_text [OF s2 r2 n2, of "()"]
  show ?thesis by blast
qed

theorem idempotence_counterexample:
  "recognize_plate excerpt_db [((), 496 # str ''12345'', 1 / 2)] = Inr ([74, 780] @ str ''12345'', 1 / 2)
   \<and> recognize_plate excerpt_db [((), [74, 780] @ str ''12345'', 1 / 2)] = Inr (str ''JI2345'', 1 / 2)
   \<and> recognize_plate excerpt_db [((), [74, 780] @ str ''12345'', 1 / 2)]
       \<noteq> recognize_plate excerpt_db [((), 496 # str ''12345'', 1 / 2)]"
  by code_simp

subsection \<open>The length gate of the series zone\<close>

text \<open>
  C10: at indices 4 and 5 a character changes only when the cleaned string is longer than
  8 characters (and then it is a digit rewritten by the digit-to-letter table); in a
  cleaned string of length 8 or less the characters at indices 4 and 5 pass through
  unchanged.
\<close>

theorem series_zone_length_gate:
  assumes "correct_loop U (length t) 0 t [] = Inr p" and "i < length t" and "4 \<le> i" and "i < 6"
  shows "(length t \<le> 8 \<longrightarrow> p ! i = t ! i)
    \<and> (p ! i \<noteq> t ! i \<longrightarrow> 8 < length t \<and> isdigit U (t ! i) \<and> digit_to_letter (t ! i) = Some (p ! i))
    \<and> (8 < length t \<and> isdigit U (t ! i) \<longrightarrow> p ! i = dict_get digit_to_letter (t ! i) (t ! i))"
proof -
  have p: "p = corrected U t"
    using assms(1) by (simp add: correct_loop_result)
  have nth: "p ! i = corrected_char U (length t) i (t ! i)"
    using assms(2) by (simp add: p nth_corrected)
  show ?thesis
    using assms(3,4)
    by (auto simp: nth corrected_char_cases dict_get_def split: option.splits)
qed

theorem series_zone_length_gate_witness:
  "correct_loop excerpt_db (length (str ''KA0512345'')) 0 (str ''KA0512345'') [] = Inr (str ''KA05IZ345'')
   \<and> 8 < length (str ''KA0512345'')
   \<and> isdigit excerpt_db (str ''KA0512345'' ! 4)
   \<and> digit_to_letter (str ''KA0512345'' ! 4) = Some (str ''KA05IZ345'' ! 4)
   \<and> correct_loop excerpt_db (length (str ''KA051234'')) 0 (str ''KA051234'') [] = Inr (str ''KA051234'')
   \<and> length (str ''KA051234'') \<le> 8
   \<and> isdigit excerpt_db (str ''KA051234'' ! 4)"
proof -
  have long: "correct_loop excerpt_db (length (str ''KA0512345'')) 0 (str ''KA0512345'') [] = Inr (str ''KA05IZ345'')"
    by code_simp
  have short: "correct_loop excerpt_db (length (str ''KA051234'')) 0 (str ''KA051234'') [] = Inr (str ''KA051234'')"
    by code_simp
  have i: "4 < length (str ''KA0512345'')" "4 < length (str ''KA051234'')"
    by (simp_all add: str_def)
  have len: "length (str ''KA051234'') \<le> 8"
    by (simp add: str_def)
  have g: "4 \<le> (4::nat)" "(4::nat) < 6"
    by simp_all
  have ne: "str ''KA05IZ345'' ! 4 \<noteq> str ''KA0512345'' ! 4"
    by code_simp
  have d: "isdigit excerpt_db (str ''KA051234'' ! 4)"
    by code_simp
  from series_zone_length_gate [OF long i(1) g] ne
  have "8 < length (str ''KA0512345'') \<and> isdigit excerpt_db (str ''KA0512345'' ! 4)
      \<and> digit_to_letter (str ''KA0512345'' ! 4) = Some (str ''KA05IZ345'' ! 4)"
    by blast
  with long short len d show ?thesis by blast
qed

end
